theory Spec2Isabelle
  imports Main "HOL-Library.Sublist"
begin

section \<open>Bytes and text\<close>

text \<open>
  A Python \<open>bytes\<close> value is a list of 8-bit characters. The diff text returned by the
  version-control tool is a Python \<open>str\<close>; it is modelled as a list of characters
  with code points below 256, where the only decimal digits are \<open>0\<close> to \<open>9\<close>.
\<close>

type_synonym bytes = "char list"

abbreviation SP :: char where "SP \<equiv> CHR 0x20"
abbreviation TAB :: char where "TAB \<equiv> CHR 0x09"
abbreviation LF :: char where "LF \<equiv> CHR 0x0A"
abbreviation VT :: char where "VT \<equiv> CHR 0x0B"
abbreviation FF :: char where "FF \<equiv> CHR 0x0C"
abbreviation CR :: char where "CR \<equiv> CHR 0x0D"

text \<open>\<open>xs.endswith(suf)\<close>.\<close>

definition endswith :: "'a list \<Rightarrow> 'a list \<Rightarrow> bool" where
  "endswith xs suf =
     (length suf \<le> length xs \<and> drop (length xs - length suf) xs = suf)"

text \<open>The slice \<open>xs[:-n]\<close> for positive \<open>n\<close>: empty when \<open>xs\<close> is shorter than \<open>n\<close>.\<close>

definition drop_last :: "nat \<Rightarrow> 'a list \<Rightarrow> 'a list" where
  "drop_last n xs = take (length xs - n) xs"

text \<open>The six bytes that \<open>bytes.isspace\<close> and \<open>bytes.rstrip(None)\<close> treat as whitespace.\<close>

definition whitespace :: bytes where
  "whitespace = [SP, TAB, LF, CR, VT, FF]"

text \<open>\<open>xs.isspace()\<close>: every byte is whitespace and there is at least one byte.\<close>

definition isspace :: "bytes \<Rightarrow> bool" where
  "isspace xs = (xs \<noteq> [] \<and> list_all (\<lambda>c. c \<in> set whitespace) xs)"

text \<open>The bytes removed by \<open>rstrip(chars)\<close>: whitespace when \<open>chars\<close> is \<open>None\<close>.\<close>

definition strip_set :: "bytes option \<Rightarrow> char set" where
  "strip_set chars = (case chars of None \<Rightarrow> set whitespace | Some cs \<Rightarrow> set cs)"

text \<open>\<open>xs.rstrip(chars)\<close>.\<close>

definition rstrip :: "bytes option \<Rightarrow> bytes \<Rightarrow> bytes" where
  "rstrip chars xs = rev (dropWhile (\<lambda>c. c \<in> strip_set chars) (rev xs))"

section \<open>The line rewriter\<close>

text \<open>
  Lines 69 to 76 of \<open>_process_line\<close>: the end-of-line marker that is split off, and the
  line without it.
\<close>

definition eol_of :: "bytes \<Rightarrow> bytes" where
  "eol_of line =
     (if endswith line [CR, LF] then [CR, LF]
      else if endswith line [LF] then [LF]
      else [])"

definition content_of :: "bytes \<Rightarrow> bytes" where
  "content_of line =
     (if endswith line [CR, LF] then drop_last 2 line
      else if endswith line [LF] then drop_last 1 line
      else line)"

text \<open>The test of line 78, on the line without its end-of-line marker.\<close>

definition hard_break :: "bool \<Rightarrow> bytes \<Rightarrow> bool" where
  "hard_break is_markdown line =
     (is_markdown \<and> \<not> isspace line \<and> endswith line [SP, SP])"

definition process_line :: "bytes \<Rightarrow> bool \<Rightarrow> bytes option \<Rightarrow> bytes" where
  "process_line line is_markdown chars =
     (let eol = eol_of line; line' = content_of line
      in if hard_break is_markdown line'
         then rstrip chars (drop_last 2 line') @ [SP, SP] @ eol
         else rstrip chars line' @ eol)"

text \<open>
  The restriction set of \<open>_fix_file\<close>: \<open>None\<close> stands for every line, as in the
  source.
\<close>

type_synonym restriction = "nat set option"

definition selected :: "restriction \<Rightarrow> nat \<Rightarrow> bool" where
  "selected changed_lines i =
     (case changed_lines of None \<Rightarrow> True | Some s \<Rightarrow> i \<in> s)"

text \<open>
  The loop of lines 52 to 59, over the lines still to visit; \<open>i\<close> is the number
  \<open>enumerate\<close> gives to the first of them, and the pair is \<open>new_lines\<close> and
  \<open>changed\<close>.
\<close>

fun fix_loop ::
  "restriction \<Rightarrow> bool \<Rightarrow> bytes option \<Rightarrow> nat \<Rightarrow> bytes list \<Rightarrow>
     bytes list \<times> bool \<Rightarrow> bytes list \<times> bool" where
  "fix_loop changed_lines is_markdown chars i [] (new_lines, changed) =
     (new_lines, changed)"
| "fix_loop changed_lines is_markdown chars i (line # rest) (new_lines, changed) =
     (if selected changed_lines i then
        (let new_line = process_line line is_markdown chars
         in fix_loop changed_lines is_markdown chars (Suc i) rest
              (new_lines @ [new_line], (if new_line \<noteq> line then True else changed)))
      else fix_loop changed_lines is_markdown chars (Suc i) rest
             (new_lines @ [line], changed))"

text \<open>Lines 50 to 59: the loop from its initial state, numbering the lines from 1.\<close>

definition fix_lines ::
  "bytes list \<Rightarrow> bool \<Rightarrow> bytes option \<Rightarrow> restriction \<Rightarrow> bytes list \<times> bool" where
  "fix_lines lines is_markdown chars changed_lines =
     fix_loop changed_lines is_markdown chars 1 lines ([], False)"

section \<open>The changed-line extractor\<close>

text \<open>
  \<open>str.splitlines()\<close> on code points below 256: a line ends at \<open>\n\<close>, \<open>\r\<close>,
  \<open>\r\n\<close>, \<open>\x0b\<close>, \<open>\x0c\<close>, \<open>\x1c\<close>, \<open>\x1d\<close>, \<open>\x1e\<close> or \<open>\x85\<close>; the line
  ends are dropped, and there is no empty last line.
\<close>

definition is_linebreak :: "char \<Rightarrow> bool" where
  "is_linebreak c =
     (c \<in> set [LF, CR, VT, FF, CHR 0x1C, CHR 0x1D, CHR 0x1E, CHR 0x85])"

fun splitlines_from :: "string \<Rightarrow> string \<Rightarrow> string list" where
  "splitlines_from cur [] = (if cur = [] then [] else [cur])"
| "splitlines_from cur (c # cs) =
     (if c = CR then
        (case cs of
           [] \<Rightarrow> cur # splitlines_from [] cs
         | d # ds \<Rightarrow>
             if d = LF then cur # splitlines_from [] ds
             else cur # splitlines_from [] cs)
      else if is_linebreak c then cur # splitlines_from [] cs
      else splitlines_from (cur @ [c]) cs)"

definition splitlines :: "string \<Rightarrow> string list" where
  "splitlines s = splitlines_from [] s"

text \<open>The pieces of the pattern of line 24.\<close>

definition is_digit :: "char \<Rightarrow> bool" where
  "is_digit c = (c \<in> set ''0123456789'')"

text \<open>A literal: the rest of the input after it, when the input starts with it.\<close>

fun expect :: "string \<Rightarrow> string \<Rightarrow> string option" where
  "expect [] s = Some s"
| "expect (p # ps) [] = None"
| "expect (p # ps) (c # cs) = (if p = c then expect ps cs else None)"

text \<open>\<open>\d+\<close>: the longest run of digits, which must not be empty, and the rest.\<close>

definition digits1 :: "string \<Rightarrow> (string \<times> string) option" where
  "digits1 s =
     (let ds = takeWhile is_digit s
      in if ds = [] then None else Some (ds, dropWhile is_digit s))"

text \<open>
  \<open>(?:,\d+)?\<close>: a comma and digits when they are there, nothing otherwise. The
  characters that may follow in the pattern are a space, so a shorter match of the
  digits never succeeds where the longest one fails.
\<close>

definition opt_count :: "string \<Rightarrow> string option \<times> string" where
  "opt_count s =
     (case s of
        [] \<Rightarrow> (None, s)
      | c # cs \<Rightarrow>
          if c = CHR '','' then
            (case digits1 cs of None \<Rightarrow> (None, s) | Some (ds, r) \<Rightarrow> (Some ds, r))
          else (None, s))"

text \<open>
  \<open>hunk_re.match(line)\<close> with the pattern
  \<^verbatim>\<open>^@@ -\d+(?:,\d+)? \+(\d+)(?:,(\d+))? @@\<close>: groups 1 and 2 of the match.
\<close>

definition hunk_re_match :: "string \<Rightarrow> (string \<times> string option) option" where
  "hunk_re_match line =
     (case expect ''@@ -'' line of None \<Rightarrow> None | Some s1 \<Rightarrow>
      case digits1 s1 of None \<Rightarrow> None | Some (old_start, s2) \<Rightarrow>
      case opt_count s2 of (old_count, s3) \<Rightarrow>
      case expect '' +'' s3 of None \<Rightarrow> None | Some s4 \<Rightarrow>
      case digits1 s4 of None \<Rightarrow> None | Some (group1, s5) \<Rightarrow>
      case opt_count s5 of (group2, s6) \<Rightarrow>
      case expect '' @@'' s6 of None \<Rightarrow> None | Some s7 \<Rightarrow>
      Some (group1, group2))"

text \<open>
  The exceptions that leave \<open>get_changed_lines\<close> and \<open>_fix_file\<close>: the
  \<open>ValueError\<close> of \<open>int\<close>, an exception of \<open>subprocess.run\<close> other than
  \<open>CalledProcessError\<close>, and the \<open>OSError\<close> of \<open>open\<close>.
\<close>

datatype error = ValueError | RunError | OSError

text \<open>
  \<open>int(s)\<close> on a string of digits. The interpreter refuses a string of more than
  \<open>sys.get_int_max_str_digits()\<close> digits, 4300 unless it is configured otherwise, with
  a \<open>ValueError\<close>; leading zeros count. The value is the decimal one.
\<close>

definition int_max_str_digits :: nat where
  "int_max_str_digits = 4300"

definition digit_value :: "char \<Rightarrow> nat" where
  "digit_value c = of_char c - of_char CHR ''0''"

definition decimal :: "string \<Rightarrow> nat" where
  "decimal s = foldl (\<lambda>n c. 10 * n + digit_value c) 0 s"

definition int_of :: "string \<Rightarrow> error + nat" where
  "int_of s =
     (if length s > int_max_str_digits then Inl ValueError else Inr (decimal s))"

text \<open>
  The loop of lines 25 to 30. \<open>start\<close> is converted before \<open>count\<close>, and the first
  \<open>ValueError\<close> ends the loop, since nothing catches it. \<open>int(1)\<close> is 1. The set is
  a mathematical one: memory is not bounded.
\<close>

fun hunk_loop :: "string list \<Rightarrow> nat set \<Rightarrow> error + nat set" where
  "hunk_loop [] changed_lines = Inr changed_lines"
| "hunk_loop (line # rest) changed_lines =
     (case hunk_re_match line of
        None \<Rightarrow> hunk_loop rest changed_lines
      | Some (group1, group2) \<Rightarrow>
          (case int_of group1 of
             Inl e \<Rightarrow> Inl e
           | Inr start \<Rightarrow>
               (case (case group2 of None \<Rightarrow> Inr 1 | Some g \<Rightarrow> int_of g) of
                  Inl e \<Rightarrow> Inl e
                | Inr count \<Rightarrow>
                    hunk_loop rest (changed_lines \<union> {start ..< start + count}))))"

text \<open>Lines 24 to 31: the lines of the output of the diff tool, and the loop over them.\<close>

definition parse_hunks :: "string \<Rightarrow> error + nat set" where
  "parse_hunks stdout = hunk_loop (splitlines stdout) {}"

text \<open>
  The outcome of \<open>subprocess.run\<close> with \<open>check=True\<close>: the decoded standard output
  of a run that exits with 0, \<open>CalledProcessError\<close> for another exit status, and any
  other exception (the program cannot be started, the output is not UTF-8).
\<close>

datatype run_result = Completed string | CalledProcessError | OtherException

text \<open>
  \<open>get_changed_lines\<close>, with the diff tool as a function of the file name. Only
  \<open>CalledProcessError\<close> is caught.
\<close>

definition get_changed_lines :: "(string \<Rightarrow> run_result) \<Rightarrow> string \<Rightarrow> error + nat set" where
  "get_changed_lines git_diff filename =
     (case git_diff filename of
        CalledProcessError \<Rightarrow> Inr {}
      | OtherException \<Rightarrow> Inl RunError
      | Completed stdout \<Rightarrow> parse_hunks stdout)"

section \<open>Fixing a file\<close>

text \<open>The files are a map from names to contents; opening a missing file raises.\<close>

type_synonym files = "string \<rightharpoonup> bytes"

text \<open>\<open>f.readlines()\<close> of a binary file: each line ends after its \<open>\n\<close>.\<close>

fun readlines :: "bytes \<Rightarrow> bytes list" where
  "readlines [] = []"
| "readlines (c # cs) =
     (if c = LF then [c] # readlines cs
      else (case readlines cs of [] \<Rightarrow> [[c]] | l # ls \<Rightarrow> (c # l) # ls))"

text \<open>Lines 47 to 65 of \<open>_fix_file\<close>; \<open>f.writelines\<close> writes the lines one after another.\<close>

definition rewrite_file ::
  "files \<Rightarrow> string \<Rightarrow> bool \<Rightarrow> bytes option \<Rightarrow> restriction \<Rightarrow> error + (files \<times> bool)" where
  "rewrite_file fs filename is_markdown chars changed_lines =
     (case fs filename of
        None \<Rightarrow> Inl OSError
      | Some data \<Rightarrow>
          (case fix_lines (readlines data) is_markdown chars changed_lines of
             (new_lines, changed) \<Rightarrow>
               if changed then Inr (fs(filename \<mapsto> concat new_lines), True)
               else Inr (fs, False)))"

text \<open>\<open>_fix_file\<close>: the files after the call and the value returned.\<close>

definition fix_file ::
  "(string \<Rightarrow> run_result) \<Rightarrow> files \<Rightarrow> string \<Rightarrow> bool \<Rightarrow> bytes option \<Rightarrow> bool \<Rightarrow>
     error + (files \<times> bool)" where
  "fix_file git_diff fs filename is_markdown chars changed_only =
     (if changed_only then
        (case get_changed_lines git_diff filename of
           Inl e \<Rightarrow> Inl e
         | Inr changed_lines \<Rightarrow>
             if changed_lines = {} then Inr (fs, False)
             else rewrite_file fs filename is_markdown chars (Some changed_lines))
      else rewrite_file fs filename is_markdown chars None)"

section \<open>The form of a hunk header\<close>





section \<open>Facts about suffixes and stripping\<close>

lemma endswith_append [simp]: "endswith (ys @ suf) suf"
  by (simp add: endswith_def)

lemma drop_last_append [simp]: "drop_last (length suf) (ys @ suf) = ys"
  by (simp add: drop_last_def)

lemma endswith_split: "endswith xs suf \<Longrightarrow> xs = drop_last (length suf) xs @ suf"
  by (metis append_take_drop_id endswith_def drop_last_def)

lemma line_split: "line = content_of line @ eol_of line"
proof -
  have a: "endswith line [CR, LF] \<Longrightarrow> line = drop_last 2 line @ [CR, LF]"
    using endswith_split [of line "[CR, LF]"] by (simp add: numeral_2_eq_2)
  have b: "endswith line [LF] \<Longrightarrow> line = drop_last 1 line @ [LF]"
    using endswith_split [of line "[LF]"] by simp
  show ?thesis using a b by (auto simp: content_of_def eol_of_def)
qed

lemma rstrip_split:
  "xs = rstrip chars xs @ rev (takeWhile (\<lambda>c. c \<in> strip_set chars) (rev xs))"
proof -
  define P where "P = (\<lambda>c. c \<in> strip_set chars)"
  have "rev (rev xs) = rev (takeWhile P (rev xs) @ dropWhile P (rev xs))"
    by (simp only: takeWhile_dropWhile_id)
  then have "xs = rev (dropWhile P (rev xs)) @ rev (takeWhile P (rev xs))"
    by (simp only: rev_rev_ident rev_append)
  then show ?thesis by (simp add: rstrip_def P_def)
qed

lemma rstrip_removed: "set (rev (takeWhile (\<lambda>c. c \<in> strip_set chars) (rev xs))) \<subseteq> strip_set chars"
  by (auto dest: set_takeWhileD)

lemma rstrip_last: "rstrip chars xs \<noteq> [] \<Longrightarrow> last (rstrip chars xs) \<notin> strip_set chars"
  unfolding rstrip_def
  by (metis (mono_tags, lifting) hd_dropWhile last_rev rev_is_Nil_conv)

lemma rstrip_fixed: "xs = [] \<or> last xs \<notin> strip_set chars \<Longrightarrow> rstrip chars xs = xs"
  by (cases xs rule: rev_cases) (auto simp: rstrip_def)

lemma rstrip_idem [simp]: "rstrip chars (rstrip chars xs) = rstrip chars xs"
  using rstrip_last [of chars xs] by (intro rstrip_fixed) auto

lemma rstrip_prefix: "prefix (rstrip chars xs) xs"
  by (metis prefixI rstrip_split)

lemma rstrip_all: "set xs \<subseteq> strip_set chars \<Longrightarrow> rstrip chars xs = []"
  by (auto simp: rstrip_def dropWhile_eq_Nil_conv)

section \<open>Facts about end-of-line markers\<close>

lemma endswith_last1: "endswith xs [c] \<longleftrightarrow> xs \<noteq> [] \<and> last xs = c"
  by (cases xs rule: rev_cases) (auto simp: endswith_def)

lemma endswith_snoc2: "endswith (xs @ [d]) [c, d'] \<longleftrightarrow> d = d' \<and> xs \<noteq> [] \<and> last xs = c"
proof (cases xs rule: rev_cases)
  case Nil
  then show ?thesis by (simp add: endswith_def)
next
  case (snoc ys y)
  then show ?thesis by (auto simp: endswith_def)
qed

lemma eol_of_cases: "eol_of line = [CR, LF] \<or> eol_of line = [LF] \<or> eol_of line = []"
  by (simp add: eol_of_def)

lemma process_line_hard:
  "hard_break md (content_of line) \<Longrightarrow>
   process_line line md chars = rstrip chars (drop_last 2 (content_of line)) @ [SP, SP] @ eol_of line"
  by (simp add: process_line_def)

lemma process_line_plain:
  "\<not> hard_break md (content_of line) \<Longrightarrow>
   process_line line md chars = rstrip chars (content_of line) @ eol_of line"
  by (simp add: process_line_def)

lemma content_SPSP:
  "endswith xs [SP, SP] \<Longrightarrow> xs = drop_last 2 xs @ [SP, SP]"
  using endswith_split [of xs "[SP, SP]"] by (simp add: numeral_2_eq_2)

lemma isspace_all: "xs \<noteq> [] \<Longrightarrow> isspace xs \<longleftrightarrow> set xs \<subseteq> set whitespace"
  by (auto simp: isspace_def list_all_iff)

lemma eol_of_snoc_CRLF [simp]: "eol_of (xs @ [CR, LF]) = [CR, LF]"
  by (simp add: eol_of_def)

lemma eol_of_snoc_LF: "eol_of (xs @ [LF]) = (if xs \<noteq> [] \<and> last xs = CR then [CR, LF] else [LF])"
  using endswith_snoc2 [of xs LF CR LF] by (auto simp: eol_of_def endswith_last1)

lemma eol_of_no_LF: "xs = [] \<or> last xs \<noteq> LF \<Longrightarrow> eol_of xs = []"
proof (cases xs rule: rev_cases)
  case Nil
  then show ?thesis by (simp add: eol_of_def endswith_def)
next
  case (snoc ys y)
  assume "xs = [] \<or> last xs \<noteq> LF"
  with snoc have "y \<noteq> LF" by simp
  then show ?thesis
    using endswith_snoc2 [of ys y CR LF] by (simp add: snoc eol_of_def endswith_last1)
qed

lemma content_of_eol: "eol_of (b @ e) = e \<Longrightarrow> content_of (b @ e) = b"
  using line_split [of "b @ e"] by simp

text \<open>The body that the end-of-line marker is attached to.\<close>

lemma process_line_body:
  "process_line line md chars =
     (if hard_break md (content_of line)
      then rstrip chars (drop_last 2 (content_of line)) @ [SP, SP]
      else rstrip chars (content_of line)) @ eol_of line"
  by (simp add: process_line_def)

lemma eol_of_attach:
  assumes "e = [CR, LF] \<or> (e = [LF] \<and> (b = [] \<or> last b \<noteq> CR)) \<or> (e = [] \<and> (b = [] \<or> last b \<noteq> LF))"
  shows "eol_of (b @ e) = e"
  using assms eol_of_snoc_LF [of b] eol_of_no_LF [of b] by auto

lemma eol_preserved:
  assumes "(CR \<in> strip_set chars \<and> LF \<in> strip_set chars) \<or> eol_of line = [CR, LF]
           \<or> hard_break md (content_of line)"
  shows "eol_of (process_line line md chars) = eol_of line"
proof (cases "hard_break md (content_of line)")
  case True
  have "eol_of ((rstrip chars (drop_last 2 (content_of line)) @ [SP, SP]) @ eol_of line) = eol_of line"
    using eol_of_cases [of line] by (intro eol_of_attach) auto
  then show ?thesis using True by (simp add: process_line_body)
next
  case False
  let ?b = "rstrip chars (content_of line)"
  have "eol_of (?b @ eol_of line) = eol_of line"
  proof (cases "eol_of line = [CR, LF]")
    case True
    then show ?thesis by simp
  next
    case ne: False
    with assms False have m: "CR \<in> strip_set chars" "LF \<in> strip_set chars" by auto
    have "?b = [] \<or> (last ?b \<noteq> CR \<and> last ?b \<noteq> LF)"
      using rstrip_last [of chars "content_of line"] m by auto
    then show ?thesis using eol_of_cases [of line] by (intro eol_of_attach) auto
  qed
  then show ?thesis using False by (simp add: process_line_body)
qed

lemma whitespace_CR_LF: "CR \<in> strip_set None" "LF \<in> strip_set None"
  by (simp_all add: strip_set_def whitespace_def)

lemmas eval_defs = process_line_def eol_of_def content_of_def hard_break_def endswith_def
  drop_last_def isspace_def rstrip_def strip_set_def whitespace_def

lemma hard_break_spec:
  assumes "\<not> list_all (\<lambda>c. c \<in> set whitespace) xs" "endswith xs [SP, SP]"
  shows "hard_break True xs"
  using assms by (simp add: hard_break_def isspace_def)

section \<open>Facts about processing a line\<close>

lemma whitespace_no_hard_break:
  assumes "list_all (\<lambda>c. c \<in> set whitespace) xs"
  shows "\<not> hard_break md xs"
proof (cases "xs = []")
  case True
  then show ?thesis by (simp add: hard_break_def endswith_def)
next
  case False
  with assms show ?thesis by (simp add: hard_break_def isspace_def)
qed

lemma content_of_prefix: "prefix (content_of xs) xs"
  by (metis line_split prefixI)

lemma content_of_attach_prefix:
  assumes "e = [CR, LF] \<or> e = [LF] \<or> e = []"
  shows "prefix (content_of (b @ e)) b"
proof -
  consider "e = [CR, LF]" | "e = [LF]" "b \<noteq> [] \<and> last b = CR" | "e = [LF]" "\<not> (b \<noteq> [] \<and> last b = CR)" | "e = []"
    using assms by blast
  then show ?thesis
  proof cases
    case 1
    then have "content_of (b @ e) = b" by (intro content_of_eol) simp
    then show ?thesis by simp
  next
    case 2
    then obtain b' where b: "b = b' @ [CR]" by (metis append_butlast_last_id)
    have "eol_of ((b' @ [CR]) @ [LF]) = [CR, LF]" by (simp only: eol_of_snoc_LF) simp
    then have "eol_of (b' @ [CR, LF]) = [CR, LF]" by simp
    then have "content_of (b' @ [CR, LF]) = b'" by (rule content_of_eol)
    then show ?thesis using b 2 by simp
  next
    case 3
    then have "eol_of (b @ e) = e" by (simp add: eol_of_snoc_LF)
    then have "content_of (b @ e) = b" by (rule content_of_eol)
    then show ?thesis by simp
  next
    case 4
    then show ?thesis by (simp add: content_of_prefix)
  qed
qed

lemma body_subseq: 
  "subseq (if hard_break md xs then rstrip chars (drop_last 2 xs) @ [SP, SP] else rstrip chars xs) xs"
proof (cases "hard_break md xs")
  case True
  then have x: "xs = drop_last 2 xs @ [SP, SP]" by (simp add: hard_break_def content_SPSP)
  have "subseq (rstrip chars (drop_last 2 xs)) (drop_last 2 xs)"
    by (simp add: rstrip_prefix prefix_imp_subseq)
  then have "subseq (rstrip chars (drop_last 2 xs) @ [SP, SP]) (drop_last 2 xs @ [SP, SP])"
    by (intro list_emb_append_mono) simp_all
  then show ?thesis using True x by simp
next
  case False
  then show ?thesis by (simp add: rstrip_prefix prefix_imp_subseq)
qed

lemma body_length:
  "length (if hard_break md xs then rstrip chars (drop_last 2 xs) @ [SP, SP] else rstrip chars xs) \<le> length xs"
  using body_subseq [where md=md and chars=chars and xs=xs] by (rule list_emb_length)

lemma process_line_removes:
  "\<exists>kept removed tail.
      content_of line = kept @ removed @ tail
    \<and> process_line line md chars = kept @ tail @ eol_of line
    \<and> set removed \<subseteq> strip_set chars
    \<and> (kept = [] \<or> last kept \<notin> strip_set chars)
    \<and> (if hard_break md (content_of line) then tail = [SP, SP] else tail = [])"
proof (cases "hard_break md (content_of line)")
  case True
  let ?pre = "drop_last 2 (content_of line)"
  let ?removed = "rev (takeWhile (\<lambda>c. c \<in> strip_set chars) (rev ?pre))"
  have "content_of line = ?pre @ [SP, SP]" using True by (simp add: hard_break_def content_SPSP)
  moreover have "?pre = rstrip chars ?pre @ ?removed" by (rule rstrip_split)
  ultimately have "content_of line = rstrip chars ?pre @ ?removed @ [SP, SP]"
    by (metis append_assoc)
  moreover have "process_line line md chars = rstrip chars ?pre @ [SP, SP] @ eol_of line"
    using True by (rule process_line_hard)
  moreover have "set ?removed \<subseteq> strip_set chars" by (rule rstrip_removed)
  moreover have "rstrip chars ?pre = [] \<or> last (rstrip chars ?pre) \<notin> strip_set chars"
    using rstrip_last by blast
  ultimately show ?thesis using True by (intro exI [of _ "rstrip chars ?pre"] exI [of _ ?removed] exI [of _ "[SP, SP]"]) simp
next
  case False
  let ?c = "content_of line"
  let ?removed = "rev (takeWhile (\<lambda>c. c \<in> strip_set chars) (rev ?c))"
  have "?c = rstrip chars ?c @ ?removed @ []" using rstrip_split [of ?c chars] by simp
  moreover have "process_line line md chars = rstrip chars ?c @ [] @ eol_of line"
    using False by (simp add: process_line_plain)
  moreover have "set ?removed \<subseteq> strip_set chars" by (rule rstrip_removed)
  moreover have "rstrip chars ?c = [] \<or> last (rstrip chars ?c) \<notin> strip_set chars"
    using rstrip_last by blast
  ultimately show ?thesis using False by (intro exI [of _ "rstrip chars ?c"] exI [of _ ?removed] exI [of _ "[]"]) simp
qed

lemma process_line_unchanged:
  assumes "\<not> hard_break md (content_of line)"
    and "content_of line = [] \<or> last (content_of line) \<notin> strip_set chars"
  shows "process_line line md chars = line"
proof -
  have "rstrip chars (content_of line) = content_of line" using assms(2) by (rule rstrip_fixed)
  then show ?thesis using assms(1) line_split [of line] by (simp add: process_line_plain)
qed

lemma hard_break_content:
  assumes "hard_break md xs"
  shows "xs = drop_last 2 xs @ [SP, SP]" and "\<not> set (drop_last 2 xs) \<subseteq> set whitespace"
proof -
  show x: "xs = drop_last 2 xs @ [SP, SP]" using assms by (simp add: hard_break_def content_SPSP)
  then have "xs \<noteq> []" by (cases xs) auto
  moreover have "\<not> isspace xs" using assms by (simp add: hard_break_def)
  ultimately have "\<not> set xs \<subseteq> set whitespace" by (simp add: isspace_all)
  then have "\<not> set (drop_last 2 xs @ [SP, SP]) \<subseteq> set whitespace" using x by simp
  then show "\<not> set (drop_last 2 xs) \<subseteq> set whitespace" by (simp add: whitespace_def)
qed

lemma rstrip_nonempty:
  assumes "\<not> set xs \<subseteq> strip_set chars"
  shows "rstrip chars xs \<noteq> []"
proof
  assume "rstrip chars xs = []"
  then have "xs = rev (takeWhile (\<lambda>c. c \<in> strip_set chars) (rev xs))"
    using rstrip_split [of xs chars] by simp
  then have "set xs \<subseteq> strip_set chars" using rstrip_removed [of chars xs] by simp
  with assms show False by simp
qed

lemma not_endswith_SPSP: "xs = [] \<or> last xs \<noteq> SP \<Longrightarrow> \<not> endswith xs [SP, SP]"
proof (cases xs rule: rev_cases)
  case Nil
  then show ?thesis by (simp add: endswith_def)
next
  case (snoc ys y)
  assume "xs = [] \<or> last xs \<noteq> SP"
  with snoc have "y \<noteq> SP" by simp
  then show ?thesis using endswith_snoc2 [of ys y SP SP] snoc by simp
qed

lemma hard_break_again:
  assumes "k \<noteq> []" "last k \<notin> set whitespace"
  shows "hard_break md (k @ [SP, SP]) = md"
proof -
  have "last k \<in> set (k @ [SP, SP])" using assms(1) by simp
  then have "\<not> set (k @ [SP, SP]) \<subseteq> set whitespace" using assms(2) by blast
  then have "\<not> isspace (k @ [SP, SP])" using isspace_all [of "k @ [SP, SP]"] by simp
  then show ?thesis by (simp add: hard_break_def)
qed

lemma drop_last_SPSP: "drop_last 2 (k @ [SP, SP]) = k"
  using drop_last_append [of "[SP, SP]" k] by (simp add: numeral_2_eq_2)

text \<open>
  Under the default policy a processed line is a fixed point of \<open>process_line\<close>.
\<close>

lemma process_line_idem:
  "process_line (process_line line md None) md None = process_line line md None"
proof -
  let ?out = "process_line line md None"
  have e: "eol_of ?out = eol_of line"
    using whitespace_CR_LF by (intro eol_preserved) simp
  show ?thesis
  proof (cases "hard_break md (content_of line)")
    case True
    let ?pre = "drop_last 2 (content_of line)"
    let ?k = "rstrip None ?pre"
    have o: "?out = (?k @ [SP, SP]) @ eol_of line" using True by (simp add: process_line_hard)
    then have "eol_of ((?k @ [SP, SP]) @ eol_of line) = eol_of line" using e by simp
    then have "content_of ((?k @ [SP, SP]) @ eol_of line) = ?k @ [SP, SP]" by (rule content_of_eol)
    then have c: "content_of ?out = ?k @ [SP, SP]" using o by simp
    have "\<not> set ?pre \<subseteq> strip_set None"
      using hard_break_content(2) [OF True] by (simp add: strip_set_def)
    then have k: "?k \<noteq> []" by (rule rstrip_nonempty)
    then have "last ?k \<notin> set whitespace" using rstrip_last [of None ?pre] by (simp add: strip_set_def)
    then have "hard_break md (?k @ [SP, SP]) = md" using k by (intro hard_break_again)
    moreover have "md" using True by (simp add: hard_break_def)
    ultimately have hb: "hard_break md (content_of ?out)" using c by simp
    have "drop_last 2 (content_of ?out) = ?k" using c by (simp add: drop_last_SPSP)
    then have "process_line ?out md None = rstrip None ?k @ [SP, SP] @ eol_of ?out"
      using hb by (simp add: process_line_hard)
    then show ?thesis using o e by simp
  next
    case False
    let ?k = "rstrip None (content_of line)"
    have o: "?out = ?k @ eol_of line" using False by (simp add: process_line_plain)
    then have "eol_of (?k @ eol_of line) = eol_of line" using e by simp
    then have "content_of (?k @ eol_of line) = ?k" by (rule content_of_eol)
    then have c: "content_of ?out = ?k" using o by simp
    have "?k = [] \<or> last ?k \<noteq> SP"
      using rstrip_last [of None "content_of line"] by (auto simp: strip_set_def whitespace_def)
    then have "\<not> endswith ?k [SP, SP]" by (rule not_endswith_SPSP)
    then have "\<not> hard_break md (content_of ?out)" using c by (simp add: hard_break_def)
    then have "process_line ?out md None = rstrip None ?k @ eol_of ?out" using c
      by (simp add: process_line_plain)
    then show ?thesis using o e by simp
  qed
qed

text \<open>
  So is it without Markdown for a strip set that holds the carriage return and the line
  feed.
\<close>

lemma process_line_idem_plain:
  assumes "CR \<in> strip_set chars" "LF \<in> strip_set chars"
  shows "process_line (process_line line False chars) False chars = process_line line False chars"
proof -
  let ?out = "process_line line False chars"
  let ?k = "rstrip chars (content_of line)"
  have nb: "\<not> hard_break False xs" for xs by (simp add: hard_break_def)
  have e: "eol_of ?out = eol_of line" using assms by (intro eol_preserved) simp
  have o: "?out = ?k @ eol_of line" using nb by (rule process_line_plain)
  then have "eol_of (?k @ eol_of line) = eol_of line" using e by simp
  then have "content_of (?k @ eol_of line) = ?k" by (rule content_of_eol)
  then have c: "content_of ?out = ?k" using o by simp
  have "process_line ?out False chars = rstrip chars (content_of ?out) @ eol_of ?out"
    using nb by (rule process_line_plain)
  then show ?thesis using c e o by simp
qed

lemma process_line_idem_cond:
  assumes "chars = None \<or> (\<not> md \<and> CR \<in> strip_set chars \<and> LF \<in> strip_set chars)"
  shows "process_line (process_line line md chars) md chars = process_line line md chars"
  using assms process_line_idem [of line md] process_line_idem_plain [of chars line] by auto
section \<open>Facts about the loop over the lines\<close>

text \<open>The loop, as a map over the numbered lines.\<close>

lemma enumerate_shift:
  "map (\<lambda>(k, l). g (i + k) l) (enumerate (Suc n) ls) = map (\<lambda>(k, l). g (Suc i + k) l) (enumerate n ls)"
  by (induction ls arbitrary: n) simp_all

lemma fix_loop_eq:
  "fix_loop cl md cs i ls (acc, ch) =
     (acc @ map (\<lambda>(k, l). if selected cl (i + k) then process_line l md cs else l) (enumerate 0 ls),
      ch \<or> (\<exists>k < length ls. selected cl (i + k) \<and> process_line (ls ! k) md cs \<noteq> ls ! k))"
proof (induction ls arbitrary: i acc ch)
  case Nil
  then show ?case by simp
next
  case (Cons l ls)
  have shift: "map (\<lambda>(k, l). if selected cl (i + k) then process_line l md cs else l) (enumerate (Suc 0) ls)
      = map (\<lambda>(k, l). if selected cl (Suc i + k) then process_line l md cs else l) (enumerate 0 ls)"
    by (rule enumerate_shift [where g = "\<lambda>k l. if selected cl k then process_line l md cs else l"])
  have ex: "(\<exists>k < Suc (length ls). selected cl (i + k) \<and> process_line ((l # ls) ! k) md cs \<noteq> (l # ls) ! k)
     \<longleftrightarrow> (selected cl i \<and> process_line l md cs \<noteq> l)
         \<or> (\<exists>k < length ls. selected cl (Suc i + k) \<and> process_line (ls ! k) md cs \<noteq> ls ! k)"
    (is "?L \<longleftrightarrow> ?A \<or> ?R")
  proof
    assume ?L
    then obtain k where k: "k < Suc (length ls)" "selected cl (i + k)"
      "process_line ((l # ls) ! k) md cs \<noteq> (l # ls) ! k" by blast
    show "?A \<or> ?R"
    proof (cases k)
      case 0
      with k show ?thesis by simp
    next
      case (Suc j)
      with k have "j < length ls \<and> selected cl (Suc i + j) \<and> process_line (ls ! j) md cs \<noteq> ls ! j"
        by simp
      then show ?thesis by blast
    qed
  next
    assume "?A \<or> ?R"
    then show ?L
    proof
      assume ?A
      then have "0 < Suc (length ls) \<and> selected cl (i + 0) \<and> process_line ((l # ls) ! 0) md cs \<noteq> (l # ls) ! 0"
        by simp
      then show ?L by blast
    next
      assume ?R
      then obtain j where "j < length ls" "selected cl (Suc i + j)" "process_line (ls ! j) md cs \<noteq> ls ! j"
        by blast
      then have "Suc j < Suc (length ls) \<and> selected cl (i + Suc j) \<and> process_line ((l # ls) ! Suc j) md cs \<noteq> (l # ls) ! Suc j"
        by simp
      then show ?L by blast
    qed
  qed
  show ?case
  proof (cases "selected cl i")
    case True
    then show ?thesis
      using Cons.IH [of "Suc i"] shift ex by (auto simp: Let_def)
  next
    case False
    then show ?thesis
      using Cons.IH [of "Suc i"] shift ex by (auto simp: Let_def)
  qed
qed

lemma fix_lines_eq:
  "fix_lines ls md cs cl =
     (map (\<lambda>(k, l). if selected cl (Suc k) then process_line l md cs else l) (enumerate 0 ls),
      \<exists>k < length ls. selected cl (Suc k) \<and> process_line (ls ! k) md cs \<noteq> ls ! k)"
  by (simp add: fix_lines_def fix_loop_eq)

lemma fix_lines_length: "length (fst (fix_lines ls md cs cl)) = length ls"
  by (simp add: fix_lines_eq)

lemma fix_lines_nth:
  "k < length ls \<Longrightarrow>
   fst (fix_lines ls md cs cl) ! k = (if selected cl (Suc k) then process_line (ls ! k) md cs else ls ! k)"
  by (simp add: fix_lines_eq nth_enumerate_eq)

lemma fix_lines_changed:
  "snd (fix_lines ls md cs cl) \<longleftrightarrow>
     (\<exists>k < length ls. selected cl (Suc k) \<and> process_line (ls ! k) md cs \<noteq> ls ! k)"
  by (simp add: fix_lines_eq)

lemma fix_lines_all: "fst (fix_lines ls md cs None) = map (\<lambda>l. process_line l md cs) ls"
  by (rule nth_equalityI) (simp_all add: fix_lines_length fix_lines_nth selected_def)

section \<open>Facts about the pattern of the hunk header\<close>




















section \<open>The claims\<close>

text \<open>
  C1. With \<open>is_markdown\<close> set, a line whose content (the line without its end-of-line
  marker) is not made of whitespace only and ends with two spaces keeps these two spaces:
  the strip characters are removed from what comes before them, the two spaces follow, and
  the end-of-line marker of the input is attached again. What is removed before the two
  spaces is a run of strip characters, and what is kept does not end with one. The test
  of the source is on the last two bytes, so the line may have more than two trailing
  spaces, as \<open>"text   \n"\<close> has: it becomes \<open>"text  \n"\<close>.
\<close>

theorem markdown_hard_break_kept:
  "(\<not> list_all (\<lambda>c. c \<in> set whitespace) (content_of line) \<and> endswith (content_of line) [SP, SP]
     \<longrightarrow> process_line line True chars
           = rstrip chars (drop_last 2 (content_of line)) @ [SP, SP] @ eol_of line
         \<and> (\<exists>kept removed.
               content_of line = kept @ removed @ [SP, SP]
             \<and> set removed \<subseteq> strip_set chars
             \<and> (kept = [] \<or> last kept \<notin> strip_set chars)
             \<and> process_line line True chars = kept @ [SP, SP] @ eol_of line))
   \<and> process_line (''text   '' @ [LF]) True None = ''text  '' @ [LF]"
proof (intro conjI impI)
  assume a: "\<not> list_all (\<lambda>c. c \<in> set whitespace) (content_of line) \<and> endswith (content_of line) [SP, SP]"
  then have hb: "hard_break True (content_of line)" by (simp add: hard_break_spec)
  then show eq: "process_line line True chars
           = rstrip chars (drop_last 2 (content_of line)) @ [SP, SP] @ eol_of line"
    by (rule process_line_hard)
  let ?pre = "drop_last 2 (content_of line)"
  let ?kept = "rstrip chars ?pre"
  let ?removed = "rev (takeWhile (\<lambda>c. c \<in> strip_set chars) (rev ?pre))"
  have "content_of line = ?pre @ [SP, SP]" using a content_SPSP by blast
  moreover have "?pre = ?kept @ ?removed" by (rule rstrip_split)
  ultimately have "content_of line = ?kept @ ?removed @ [SP, SP]" by (metis append_assoc)
  moreover have "set ?removed \<subseteq> strip_set chars" by (rule rstrip_removed)
  moreover have "?kept = [] \<or> last ?kept \<notin> strip_set chars" using rstrip_last by blast
  ultimately show "\<exists>kept removed.
               content_of line = kept @ removed @ [SP, SP]
             \<and> set removed \<subseteq> strip_set chars
             \<and> (kept = [] \<or> last kept \<notin> strip_set chars)
             \<and> process_line line True chars = kept @ [SP, SP] @ eol_of line"
    using eq by blast
next
  show "process_line (''text   '' @ [LF]) True None = ''text  '' @ [LF]"
    by (simp add: eval_defs)
qed

theorem markdown_hard_break_kept_witness:
  "process_line (''a b'' @ [TAB, SP, SP, CR, LF]) True None = ''a b  '' @ [CR, LF]
   \<and> process_line (''text   '' @ [LF]) True None = ''text  '' @ [LF]"
proof -
  let ?l = "''a b'' @ [TAB, SP, SP, CR, LF]"
  have h: "\<not> list_all (\<lambda>c. c \<in> set whitespace) (content_of ?l) \<and> endswith (content_of ?l) [SP, SP]"
    by (simp add: eol_of_def content_of_def endswith_def drop_last_def whitespace_def)
  have r: "rstrip None (drop_last 2 (content_of ?l)) @ [SP, SP] @ eol_of ?l = ''a b  '' @ [CR, LF]"
    by (simp add: eol_of_def content_of_def endswith_def drop_last_def rstrip_def
        strip_set_def whitespace_def)
  from markdown_hard_break_kept [of ?l None] h r show ?thesis by metis
qed
text \<open>
  C2. With a restriction set, the rewriter returns as many lines as it is given, in the
  same order: the line with number \<open>k + 1\<close> is processed when this number is in the
  set and is returned as it is otherwise. The flag \<open>changed\<close> is set exactly when some
  processed line differs from its input. With the set \<open>{2}\<close>, without Markdown and with
  the default strip characters, the lines \<open>"a  \n"\<close>, \<open>"b  \n"\<close>, \<open>"c  \n"\<close> give
  \<open>"a  \n"\<close>, \<open>"b\n"\<close>, \<open>"c  \n"\<close> and the flag is set.
\<close>

theorem restriction_set_respected:
  "length (fst (fix_lines lines is_markdown chars (Some s))) = length lines
   \<and> (\<forall>k < length lines.
         fst (fix_lines lines is_markdown chars (Some s)) ! k
           = (if Suc k \<in> s then process_line (lines ! k) is_markdown chars else lines ! k))
   \<and> (snd (fix_lines lines is_markdown chars (Some s)) \<longleftrightarrow>
         (\<exists>k < length lines. Suc k \<in> s \<and> process_line (lines ! k) is_markdown chars \<noteq> lines ! k))
   \<and> fix_lines [''a  '' @ [LF], ''b  '' @ [LF], ''c  '' @ [LF]] False None (Some {2})
         = ([''a  '' @ [LF], ''b'' @ [LF], ''c  '' @ [LF]], True)"
proof (intro conjI allI impI)
  show "length (fst (fix_lines lines is_markdown chars (Some s))) = length lines"
    by (rule fix_lines_length)
  show "fst (fix_lines lines is_markdown chars (Some s)) ! k
           = (if Suc k \<in> s then process_line (lines ! k) is_markdown chars else lines ! k)"
    if "k < length lines" for k
    using that by (simp add: fix_lines_nth selected_def)
  show "snd (fix_lines lines is_markdown chars (Some s)) \<longleftrightarrow>
         (\<exists>k < length lines. Suc k \<in> s \<and> process_line (lines ! k) is_markdown chars \<noteq> lines ! k)"
    by (simp add: fix_lines_changed selected_def)
  show "fix_lines [''a  '' @ [LF], ''b  '' @ [LF], ''c  '' @ [LF]] False None (Some {2})
         = ([''a  '' @ [LF], ''b'' @ [LF], ''c  '' @ [LF]], True)"
    by (simp add: fix_lines_def selected_def eval_defs)
qed

theorem restriction_set_respected_witness:
  "fst (fix_lines [''a  '' @ [LF], ''b  '' @ [LF], ''c  '' @ [LF]] False None (Some {2})) ! 0 = ''a  '' @ [LF]
   \<and> fst (fix_lines [''a  '' @ [LF], ''b  '' @ [LF], ''c  '' @ [LF]] False None (Some {2})) ! 1
       = process_line (''b  '' @ [LF]) False None"
proof -
  let ?ls = "[''a  '' @ [LF], ''b  '' @ [LF], ''c  '' @ [LF]]"
  have a: "\<forall>k < length ?ls. fst (fix_lines ?ls False None (Some {2})) ! k
           = (if Suc k \<in> {2} then process_line (?ls ! k) False None else ?ls ! k)"
    using restriction_set_respected [of ?ls False None "{2}"] by blast
  have "fst (fix_lines ?ls False None (Some {2})) ! 0
           = (if Suc 0 \<in> {2::nat} then process_line (?ls ! 0) False None else ?ls ! 0)"
    using a by simp
  moreover have "fst (fix_lines ?ls False None (Some {2})) ! 1
           = (if Suc 1 \<in> {2::nat} then process_line (?ls ! 1) False None else ?ls ! 1)"
    using a by simp
  ultimately show ?thesis by simp
qed


text \<open>
  C4 (amended). A line whose content is made of whitespace only is reduced to its
  end-of-line marker, for both values of \<open>is_markdown\<close>, when the strip characters are
  the default ones (\<open>chars\<close> is \<open>None\<close>) or, for an explicit set, when every byte of
  the content belongs to the set. The hard break is never kept on such a line.
\<close>

theorem whitespace_only_line_stripped:
  "list_all (\<lambda>c. c \<in> set whitespace) (content_of line) \<and>
   (chars = None \<or> set (content_of line) \<subseteq> strip_set chars)
   \<longrightarrow> process_line line is_markdown chars = eol_of line"
proof
  assume a: "list_all (\<lambda>c. c \<in> set whitespace) (content_of line) \<and>
   (chars = None \<or> set (content_of line) \<subseteq> strip_set chars)"
  then have "set (content_of line) \<subseteq> strip_set chars"
    by (auto simp: strip_set_def list_all_iff)
  then have "rstrip chars (content_of line) = []" by (rule rstrip_all)
  moreover have "\<not> hard_break is_markdown (content_of line)"
    using a by (simp add: whitespace_no_hard_break)
  ultimately show "process_line line is_markdown chars = eol_of line"
    by (simp add: process_line_plain)
qed

theorem whitespace_only_line_stripped_witness:
  "process_line [SP, TAB, SP, CR, LF] True None = [CR, LF]"
proof -
  let ?l = "[SP, TAB, SP, CR, LF]"
  have h: "list_all (\<lambda>c. c \<in> set whitespace) (content_of ?l) \<and>
   (None = (None :: bytes option) \<or> set (content_of ?l) \<subseteq> strip_set None)"
    by (simp add: content_of_def endswith_def drop_last_def whitespace_def)
  have e: "eol_of ?l = [CR, LF]" by (simp add: eol_of_def endswith_def)
  from whitespace_only_line_stripped [of ?l None True] h e show ?thesis by metis
qed

text \<open>
  With the explicit strip set \<open>x\<close>, the line of three spaces and a line feed is returned
  as it is, for both values of \<open>is_markdown\<close>: the claim does not hold for every strip
  policy.
\<close>

theorem whitespace_only_line_counterexample:
  "content_of [SP, SP, SP, LF] = [SP, SP, SP]
   \<and> eol_of [SP, SP, SP, LF] = [LF]
   \<and> process_line [SP, SP, SP, LF] False (Some ''x'') = [SP, SP, SP, LF]
   \<and> process_line [SP, SP, SP, LF] True (Some ''x'') = [SP, SP, SP, LF]
   \<and> process_line [SP, SP, SP, LF] False (Some ''x'') \<noteq> eol_of [SP, SP, SP, LF]"
  by (simp add: eval_defs)
text \<open>
  C5 (amended). The processed line always ends with the bytes of the end-of-line marker
  of the input line. The marker found on the processed line is the marker of the input
  line when the strip characters are the default ones or contain both the carriage
  return and the line feed, when the input line ends with a carriage return and a line
  feed, or when the hard break is kept.
\<close>

theorem eol_marker_kept:
  "suffix (eol_of line) (process_line line is_markdown chars)
   \<and> (chars = None \<or> (CR \<in> strip_set chars \<and> LF \<in> strip_set chars) \<or> eol_of line = [CR, LF]
        \<or> hard_break is_markdown (content_of line)
      \<longrightarrow> eol_of (process_line line is_markdown chars) = eol_of line)"
proof (intro conjI impI)
  show "suffix (eol_of line) (process_line line is_markdown chars)"
    by (simp only: process_line_body suffix_def) blast
next
  assume "chars = None \<or> (CR \<in> strip_set chars \<and> LF \<in> strip_set chars) \<or> eol_of line = [CR, LF]
        \<or> hard_break is_markdown (content_of line)"
  then have "(CR \<in> strip_set chars \<and> LF \<in> strip_set chars) \<or> eol_of line = [CR, LF]
           \<or> hard_break is_markdown (content_of line)"
    using whitespace_CR_LF by auto
  then show "eol_of (process_line line is_markdown chars) = eol_of line"
    by (rule eol_preserved)
qed

theorem eol_marker_kept_witness:
  "eol_of (process_line (''ab '' @ [CR, LF]) False None) = [CR, LF]"
proof -
  let ?l = "''ab '' @ [CR, LF]"
  have e: "eol_of ?l = [CR, LF]" by (simp add: eol_of_def endswith_def)
  from eol_marker_kept [of ?l False None] e show ?thesis by metis
qed

text \<open>
  With the explicit strip set of the space alone, a line that ends with a carriage
  return, a space and a line feed has the marker LF, and its processed form ends with
  a carriage return and a line feed: the marker has become CRLF.
\<close>

theorem eol_marker_counterexample:
  "eol_of (''a'' @ [CR, SP, LF]) = [LF]
   \<and> process_line (''a'' @ [CR, SP, LF]) False (Some '' '') = ''a'' @ [CR, LF]
   \<and> eol_of (process_line (''a'' @ [CR, SP, LF]) False (Some '' '')) = [CR, LF]
   \<and> eol_of (process_line (''a'' @ [CR, SP, LF]) False (Some '' '')) \<noteq> eol_of (''a'' @ [CR, SP, LF])"
  by (simp add: eval_defs)
text \<open>
  C6 (amended). With no restriction set, rewriting the lines that the rewriter has
  returned gives the same lines again and the flag \<open>changed\<close> is not set, when the
  strip characters are the default ones (\<open>chars\<close> is \<open>None\<close>), for both values of
  \<open>is_markdown\<close>, and when they are an explicit set that holds the carriage return and
  the line feed, without Markdown.
\<close>

theorem rewrite_idempotent:
  "chars = None \<or> (\<not> is_markdown \<and> CR \<in> strip_set chars \<and> LF \<in> strip_set chars) \<longrightarrow>
   fix_lines (fst (fix_lines lines is_markdown chars None)) is_markdown chars None
     = (fst (fix_lines lines is_markdown chars None), False)"
proof
  assume a: "chars = None \<or> (\<not> is_markdown \<and> CR \<in> strip_set chars \<and> LF \<in> strip_set chars)"
  let ?out = "fst (fix_lines lines is_markdown chars None)"
  have idem: "process_line (process_line l is_markdown chars) is_markdown chars
                = process_line l is_markdown chars" for l
    using a by (rule process_line_idem_cond)
  have o: "?out = map (\<lambda>l. process_line l is_markdown chars) lines" by (rule fix_lines_all)
  have "fst (fix_lines ?out is_markdown chars None) = map (\<lambda>l. process_line l is_markdown chars) ?out"
    by (rule fix_lines_all)
  also have "\<dots> = ?out" by (simp add: o idem)
  finally have f: "fst (fix_lines ?out is_markdown chars None) = ?out" .
  have "\<not> (\<exists>k < length ?out. selected None (Suc k) \<and> process_line (?out ! k) is_markdown chars \<noteq> ?out ! k)"
    by (simp add: o idem)
  then have "\<not> snd (fix_lines ?out is_markdown chars None)"
    using fix_lines_changed [of ?out is_markdown chars None] by blast
  with f show "fix_lines ?out is_markdown chars None = (?out, False)" by (simp add: prod_eq_iff)
qed

theorem rewrite_idempotent_witness:
  "fix_lines (fst (fix_lines [''text   '' @ [LF], [SP, CR, LF]] True None None)) True None None
     = (fst (fix_lines [''text   '' @ [LF], [SP, CR, LF]] True None None), False)
   \<and> fst (fix_lines [''text   '' @ [LF], [SP, CR, LF]] True None None) = [''text  '' @ [LF], [CR, LF]]"
proof -
  have "fst (fix_lines [''text   '' @ [LF], [SP, CR, LF]] True None None) = [''text  '' @ [LF], [CR, LF]]"
    by (simp add: fix_lines_def selected_def eval_defs)
  with rewrite_idempotent [of None True "[''text   '' @ [LF], [SP, CR, LF]]"]
  show ?thesis by blast
qed

text \<open>
  With an explicit strip set a second pass can change a line again. With the space as
  the only strip character, a line that ends with a space, a carriage return, a space and
  a line feed first loses the last space, and then, its carriage return now being part of
  the end-of-line marker, the space before it. With the strip set of \<open>x\<close> and the space
  and Markdown, the line \<open>"x  \n"\<close> becomes two spaces and a line feed, which the
  second pass strips as a whitespace-only line.
\<close>

theorem rewrite_idempotent_counterexample:
  "fix_lines [''a '' @ [CR, SP, LF]] False (Some '' '') None = ([''a '' @ [CR, LF]], True)
   \<and> fix_lines [''a '' @ [CR, LF]] False (Some '' '') None = ([''a'' @ [CR, LF]], True)
   \<and> fix_lines (fst (fix_lines [''a '' @ [CR, SP, LF]] False (Some '' '') None)) False (Some '' '') None
       \<noteq> (fst (fix_lines [''a '' @ [CR, SP, LF]] False (Some '' '') None), False)
   \<and> fix_lines [''x  '' @ [LF]] True (Some ''x '') None = ([[SP, SP, LF]], True)
   \<and> fix_lines [[SP, SP, LF]] True (Some ''x '') None = ([[LF]], True)"
  by (simp add: fix_lines_def selected_def eval_defs)

text \<open>
  C8. With \<open>changed_only\<close> set, when \<open>get_changed_lines\<close> returns the empty set for a
  file, \<open>_fix_file\<close> returns \<open>False\<close> and the files are as they were: nothing is
  written. The file of the witness would be rewritten without \<open>changed_only\<close>.
\<close>

theorem empty_changed_set_leaves_file:
  "get_changed_lines git_diff filename = Inr {} \<longrightarrow>
     fix_file git_diff fs filename is_markdown chars True = Inr (fs, False)"
  by (simp add: fix_file_def)

theorem empty_changed_set_leaves_file_witness:
  "fix_file (\<lambda>f. CalledProcessError) [''a.txt'' \<mapsto> ''x  '' @ [LF]] ''a.txt'' False None True
     = Inr ([''a.txt'' \<mapsto> ''x  '' @ [LF]], False)
   \<and> (\<exists>fs'. fix_file (\<lambda>f. CalledProcessError) [''a.txt'' \<mapsto> ''x  '' @ [LF]] ''a.txt'' False None False
         = Inr (fs', True) \<and> fs' ''a.txt'' = Some (''x'' @ [LF]))"
proof -
  have h: "get_changed_lines (\<lambda>f. CalledProcessError) ''a.txt'' = Inr {}"
    by (simp add: get_changed_lines_def)
  have a: "fix_file (\<lambda>f. CalledProcessError) [''a.txt'' \<mapsto> ''x  '' @ [LF]] ''a.txt'' False None True
     = Inr ([''a.txt'' \<mapsto> ''x  '' @ [LF]], False)"
    using empty_changed_set_leaves_file [of "\<lambda>f. CalledProcessError" "''a.txt''" "[''a.txt'' \<mapsto> ''x  '' @ [LF]]" False None] h
    by blast
  have b: "\<exists>fs'. fix_file (\<lambda>f. CalledProcessError) [''a.txt'' \<mapsto> ''x  '' @ [LF]] ''a.txt'' False None False
         = Inr (fs', True) \<and> fs' ''a.txt'' = Some (''x'' @ [LF])"
    by (simp add: fix_file_def rewrite_file_def fix_lines_def selected_def eval_defs)
  from a b show ?thesis by blast
qed
text \<open>
  C9 (amended). The bytes removed from a line are a run of strip characters, and what is
  kept before them does not end with a strip character: the members of \<open>chars\<close> for an
  explicit set, the whitespace bytes when \<open>chars\<close> is \<open>None\<close>. The run is at the end
  of the content, or before the two spaces when the hard break is kept; these two spaces
  stay. So with the strip set \<open>x\<close> the line \<open>"abcxxx\n"\<close> becomes \<open>"abc\n"\<close>.
  A line that ends with a space is returned as it is when the space is not in the strip
  set and the hard break is not kept, which is always so without Markdown; the line
  \<open>"abc   \n"\<close> is returned as it is for both values of \<open>is_markdown\<close>.
\<close>

theorem strip_chars_semantics:
  "(\<exists>kept removed tail.
      content_of line = kept @ removed @ tail
    \<and> process_line line is_markdown (Some cs) = kept @ tail @ eol_of line
    \<and> set removed \<subseteq> set cs
    \<and> (kept = [] \<or> last kept \<notin> set cs)
    \<and> (if hard_break is_markdown (content_of line) then tail = [SP, SP] else tail = []))
   \<and> (\<exists>kept removed tail.
      content_of line = kept @ removed @ tail
    \<and> process_line line is_markdown None = kept @ tail @ eol_of line
    \<and> set removed \<subseteq> set whitespace
    \<and> (kept = [] \<or> last kept \<notin> set whitespace)
    \<and> (if hard_break is_markdown (content_of line) then tail = [SP, SP] else tail = []))
   \<and> (\<not> hard_break is_markdown (content_of line) \<and> content_of line \<noteq> []
        \<and> last (content_of line) = SP \<and> SP \<notin> set cs
       \<longrightarrow> process_line line is_markdown (Some cs) = line)
   \<and> (content_of line \<noteq> [] \<and> last (content_of line) = SP \<and> SP \<notin> set cs
       \<longrightarrow> process_line line False (Some cs) = line)
   \<and> process_line (''abcxxx'' @ [LF]) is_markdown (Some ''x'') = ''abc'' @ [LF]
   \<and> process_line (''abc   '' @ [LF]) is_markdown (Some ''x'') = ''abc   '' @ [LF]"
proof (intro conjI impI)
  show "\<exists>kept removed tail.
      content_of line = kept @ removed @ tail
    \<and> process_line line is_markdown (Some cs) = kept @ tail @ eol_of line
    \<and> set removed \<subseteq> set cs
    \<and> (kept = [] \<or> last kept \<notin> set cs)
    \<and> (if hard_break is_markdown (content_of line) then tail = [SP, SP] else tail = [])"
    using process_line_removes [of line is_markdown "Some cs"] by (simp add: strip_set_def)
  show "\<exists>kept removed tail.
      content_of line = kept @ removed @ tail
    \<and> process_line line is_markdown None = kept @ tail @ eol_of line
    \<and> set removed \<subseteq> set whitespace
    \<and> (kept = [] \<or> last kept \<notin> set whitespace)
    \<and> (if hard_break is_markdown (content_of line) then tail = [SP, SP] else tail = [])"
    using process_line_removes [of line is_markdown None] by (simp add: strip_set_def)
  show "process_line line is_markdown (Some cs) = line"
    if "\<not> hard_break is_markdown (content_of line) \<and> content_of line \<noteq> []
        \<and> last (content_of line) = SP \<and> SP \<notin> set cs"
    using that by (intro process_line_unchanged) (simp_all add: strip_set_def)
  show "process_line line False (Some cs) = line"
    if "content_of line \<noteq> [] \<and> last (content_of line) = SP \<and> SP \<notin> set cs"
    using that by (intro process_line_unchanged) (simp_all add: strip_set_def hard_break_def)
  show "process_line (''abcxxx'' @ [LF]) is_markdown (Some ''x'') = ''abc'' @ [LF]"
    by (cases is_markdown) (simp_all add: eval_defs)
  show "process_line (''abc   '' @ [LF]) is_markdown (Some ''x'') = ''abc   '' @ [LF]"
    by (cases is_markdown) (simp_all add: eval_defs)
qed

theorem strip_chars_semantics_witness:
  "process_line (''ab '' @ [CR, LF]) False (Some ''x'') = ''ab '' @ [CR, LF]
   \<and> process_line (''abcxxx'' @ [LF]) False (Some ''x'') = ''abc'' @ [LF]"
proof -
  let ?l = "''ab '' @ [CR, LF]"
  have h: "\<not> hard_break False (content_of ?l) \<and> content_of ?l \<noteq> []
        \<and> last (content_of ?l) = SP \<and> SP \<notin> set ''x''"
    by (simp add: hard_break_def content_of_def endswith_def drop_last_def)
  from strip_chars_semantics [of ?l False "''x''"] h show ?thesis by blast
qed

text \<open>
  With Markdown, a line can end with spaces that are not in the strip set and still
  change: the hard break is kept and the strip characters before it are removed, so with
  the strip set \<open>x\<close> the line \<open>"abcx  \n"\<close> becomes \<open>"abc  \n"\<close>. With the default
  strip characters the two spaces of \<open>"text   \n"\<close> stay: not all trailing whitespace
  is removed.
\<close>

theorem strip_chars_counterexample:
  "content_of (''abcx  '' @ [LF]) = ''abcx  ''
   \<and> last (content_of (''abcx  '' @ [LF])) = SP
   \<and> SP \<notin> set ''x''
   \<and> process_line (''abcx  '' @ [LF]) True (Some ''x'') = ''abc  '' @ [LF]
   \<and> process_line (''abcx  '' @ [LF]) True (Some ''x'') \<noteq> ''abcx  '' @ [LF]
   \<and> process_line (''text   '' @ [LF]) True None = ''text  '' @ [LF]"
  by (simp add: eval_defs)
text \<open>
  C10. The processed line is never longer than the input line, and its content is
  obtained from the content of the input line by removing bytes: it is a subsequence of
  it, both as the part that the end-of-line marker is attached to and as the content
  found on the processed line.
\<close>

theorem output_never_longer:
  "length (process_line line is_markdown chars) \<le> length line
   \<and> subseq (content_of (process_line line is_markdown chars)) (content_of line)
   \<and> (\<exists>body. process_line line is_markdown chars = body @ eol_of line
        \<and> subseq body (content_of line))"
proof -
  let ?b = "if hard_break is_markdown (content_of line)
      then rstrip chars (drop_last 2 (content_of line)) @ [SP, SP]
      else rstrip chars (content_of line)"
  have p: "process_line line is_markdown chars = ?b @ eol_of line" by (rule process_line_body)
  have s: "subseq ?b (content_of line)" by (rule body_subseq)
  have "length (?b @ eol_of line) \<le> length (content_of line @ eol_of line)"
    using body_length [where md=is_markdown and chars=chars and xs="content_of line"] by simp
  then have l: "length (process_line line is_markdown chars) \<le> length line"
    using p line_split [of line] by simp
  have "prefix (content_of (?b @ eol_of line)) ?b"
    using eol_of_cases [of line] by (intro content_of_attach_prefix) blast
  then have "subseq (content_of (?b @ eol_of line)) ?b" by (rule prefix_imp_subseq)
  then have "subseq (content_of (?b @ eol_of line)) (content_of line)"
    using s subseq_order.trans by blast
  then have c: "subseq (content_of (process_line line is_markdown chars)) (content_of line)"
    using p by simp
  from l c p s show ?thesis by blast
qed

theorem output_never_longer_witness:
  "length (process_line (''text   '' @ [LF]) True None) \<le> length (''text   '' @ [LF])
   \<and> subseq (content_of (process_line (''text   '' @ [LF]) True None)) (content_of (''text   '' @ [LF]))"
  using output_never_longer [of "''text   '' @ [LF]" True None] by blast

end
